theory Spec2Isabelle
  imports Main "HOL-Library.Multiset"
begin

section \<open>FlashCardsApp: CSV codec, deck store and persistence\<close>

text \<open>
  The development follows \<open>FlashcardsApp.jsx\<close> (the revision with persistence,
  \<open>src/unnamed/part_000\<close>). JavaScript strings are modelled as \<open>string\<close>; a
  \<open>char\<close> stands for one code unit in the range 0..255. Values of the React state and of
  \<open>JSON.parse\<close> are modelled by the datatype \<open>jsval\<close>.
\<close>

subsection \<open>Characters and string helpers\<close>

definition dquote :: char where
  "dquote = CHR 0x22"

definition comma :: char where
  "comma = CHR 0x2C"

definition newline :: char where
  "newline = CHR 0x0A"

definition cret :: char where
  "cret = CHR 0x0D"

text \<open>
  \<open>String.prototype.trim\<close> removes WhiteSpace and LineTerminator code units from both
  ends. Below U+0100 these are TAB, LF, VT, FF, CR, SPACE and NBSP.
\<close>

definition is_ws :: "char \<Rightarrow> bool" where
  "is_ws c = (c \<in> {CHR 0x09, CHR 0x0A, CHR 0x0B, CHR 0x0C, CHR 0x0D, CHR 0x20, CHR 0xA0})"

definition trim :: "string \<Rightarrow> string" where
  "trim s = rev (dropWhile is_ws (rev (dropWhile is_ws s)))"

text \<open>\<open>Array.prototype.join\<close> on an array of strings.\<close>

fun join :: "string \<Rightarrow> string list \<Rightarrow> string" where
  "join sep [] = []"
| "join sep [x] = x"
| "join sep (x # y # ys) = x @ sep @ join sep (y # ys)"

text \<open>\<open>s.split(c)\<close> for a one-character separator: the pieces between occurrences.\<close>

fun split_char :: "char \<Rightarrow> string \<Rightarrow> string \<Rightarrow> string list" where
  "split_char c cur [] = [cur]"
| "split_char c cur (x # xs) =
     (if x = c then cur # split_char c [] xs else split_char c (cur @ [x]) xs)"

text \<open>
  \<open>text.split(/\r?\n/)\<close>: the text is cut at every line feed, and a carriage return
  directly before the line feed belongs to the separator.
\<close>

fun split_lines :: "string \<Rightarrow> string \<Rightarrow> string list" where
  "split_lines cur [] = [cur]"
| "split_lines cur (x # xs) =
     (if x = newline then cur # split_lines [] xs
      else if x = cret \<and> xs \<noteq> [] \<and> hd xs = newline then cur # split_lines [] (tl xs)
      else split_lines (cur @ [x]) xs)"

text \<open>The decimal text of a non-negative integer, as a template literal prints it.\<close>

fun show_nat :: "nat \<Rightarrow> string" where
  "show_nat n =
     (if n < 10 then [char_of (48 + n)]
      else show_nat (n div 10) @ [char_of (48 + n mod 10)])"

declare show_nat.simps [simp del]

subsection \<open>The CSV tokenizer and parser\<close>

text \<open>
  \<open>splitCSVLine\<close>: the loop over the characters of the line. \<open>scan\<close> is the loop body
  applied to the characters from index \<open>i\<close> on, with the loop variables \<open>res\<close>,
  \<open>cur\<close> and \<open>inQuotes\<close>; \<open>line[i + 1]\<close> past the end is \<open>undefined\<close>, which is
  not a quote.
\<close>

fun scan :: "string list \<Rightarrow> string \<Rightarrow> bool \<Rightarrow> string \<Rightarrow> string list" where
  "scan res cur inQuotes [] = res @ [cur]"
| "scan res cur inQuotes (ch # rest) =
     (if ch = dquote then
        (if inQuotes \<and> rest \<noteq> [] \<and> hd rest = dquote
         then scan res (cur @ [dquote]) inQuotes (tl rest)
         else scan res cur (\<not> inQuotes) rest)
      else if ch = comma \<and> \<not> inQuotes then scan (res @ [cur]) [] inQuotes rest
      else scan res (cur @ [ch]) inQuotes rest)"

definition splitCSVLine :: "string \<Rightarrow> string list" where
  "splitCSVLine line = scan [] [] False line"

record row =
  question :: string
  answer :: string

text \<open>\<open>cols[k] || ''\<close>: a missing column and an empty column both give the empty string.\<close>

definition col :: "string list \<Rightarrow> nat \<Rightarrow> string" where
  "col cols k = (if k < length cols then cols ! k else [])"

text \<open>The body of the \<open>for (const line of rows)\<close> loop of \<open>parseCSV\<close>.\<close>

fun parse_rows :: "string list \<Rightarrow> row list" where
  "parse_rows [] = []"
| "parse_rows (line # rows) =
     (if line = [] then parse_rows rows
      else
        (let cols = splitCSVLine line;
             q = trim (col cols 0);
             a = trim (col cols 1)
         in if q \<noteq> [] \<or> a \<noteq> []
            then \<lparr>question = q, answer = a\<rparr> # parse_rows rows
            else parse_rows rows))"

definition parseCSV :: "string \<Rightarrow> row list" where
  "parseCSV text = parse_rows (map trim (split_lines [] text))"

subsection \<open>The CSV serializer\<close>

text \<open>
  The quoting rule of \<open>exportAllAsCSV\<close> on a string field: wrapped in quotes, with every
  quote doubled, when the field has a comma, a quote or a line feed.
\<close>

definition double_quotes :: "string \<Rightarrow> string" where
  "double_quotes s = concat (map (\<lambda>c. if c = dquote then [dquote, dquote] else [c]) s)"

definition quote_field :: "string \<Rightarrow> string" where
  "quote_field s =
     (if comma \<in> set s \<or> dquote \<in> set s \<or> newline \<in> set s
      then [dquote] @ double_quotes s @ [dquote]
      else s)"

subsection \<open>JavaScript values and deck entries\<close>

text \<open>
  The values held in the \<open>cards\<close> state and produced by \<open>JSON.parse\<close>. An object is
  the list of its own properties in insertion order. Numbers are doubles in JavaScript;
  no function below inspects one, so \<open>JNum\<close> only marks the case.
\<close>

datatype jsval =
    JUndefined
  | JNull
  | JBool bool
  | JNum int
  | JStr string
  | JArr "jsval list"
  | JObj "(string \<times> jsval) list"

datatype js_error = TypeError | SyntaxError

text \<open>
  Reading one of the properties \<open>type\<close>, \<open>title\<close>, \<open>question\<close>, \<open>answer\<close>,
  \<open>id\<close>: on \<open>null\<close> and \<open>undefined\<close> the read throws, on an object it gives the
  own property or \<open>undefined\<close>, on every other value \<open>undefined\<close>.
\<close>

fun get_prop :: "jsval \<Rightarrow> string \<Rightarrow> js_error + jsval" where
  "get_prop JUndefined k = Inl TypeError"
| "get_prop JNull k = Inl TypeError"
| "get_prop (JObj kvs) k = Inr (case map_of kvs k of Some v \<Rightarrow> v | None \<Rightarrow> JUndefined)"
| "get_prop v k = Inr JUndefined"

text \<open>The two object literals that \<open>handleFiles\<close> and \<open>loadFromUrl\<close> build.\<close>

definition separator_obj :: "string \<Rightarrow> string \<Rightarrow> jsval" where
  "separator_obj title ident =
     JObj [(''type'', JStr ''separator''), (''title'', JStr title), (''id'', JStr ident)]"

definition card_obj :: "string \<Rightarrow> string \<Rightarrow> string \<Rightarrow> jsval" where
  "card_obj q a ident =
     JObj [(''type'', JStr ''card''), (''question'', JStr q), (''answer'', JStr a),
           (''id'', JStr ident)]"

definition is_separator :: "jsval \<Rightarrow> bool" where
  "is_separator c = (get_prop c ''type'' = Inr (JStr ''separator''))"

definition is_card :: "jsval \<Rightarrow> bool" where
  "is_card c = (get_prop c ''type'' = Inr (JStr ''card''))"

definition entry_id :: "jsval \<Rightarrow> js_error + jsval" where
  "entry_id c = get_prop c ''id''"

subsection \<open>Application state\<close>

text \<open>
  \<open>cards\<close> and \<open>flipped\<close> are the React state; \<open>storage\<close> is the \<open>localStorage\<close>
  item under \<open>STORAGE_KEY\<close> (\<open>None\<close> when absent); \<open>alerts\<close> and
  \<open>console_errors\<close> record the calls of \<open>alert\<close> and \<open>console.error\<close>.
\<close>

record app =
  cards :: "jsval list"
  flipped :: "string set"
  storage :: "string option"
  alerts :: "string list"
  console_errors :: "string list"

definition init_app :: "string option \<Rightarrow> app" where
  "init_app stored =
     \<lparr>cards = [], flipped = {}, storage = stored, alerts = [], console_errors = []\<rparr>"

subsection \<open>Ingestion\<close>

text \<open>
  What one run of a \<open>setCards\<close> updater reads from the platform: \<open>Date.now()\<close> and
  the printed text of \<open>Math.random()\<close> for the separator, and \<open>Date.now()\<close> once
  for each card, by its index.
\<close>

record load_env =
  sep_now :: nat
  sep_rnd :: string
  card_now :: "nat \<Rightarrow> nat"

definition sep_id :: "load_env \<Rightarrow> string" where
  "sep_id env = ''sep-'' @ show_nat (sep_now env) @ ''-'' @ sep_rnd env"

definition card_id :: "load_env \<Rightarrow> string \<Rightarrow> nat \<Rightarrow> string" where
  "card_id env name idx = name @ ''-'' @ show_nat idx @ ''-'' @ show_nat (card_now env idx)"

text \<open>The entries that one load adds: the separator, then one card for each parsed row.\<close>

definition new_entries :: "load_env \<Rightarrow> string \<Rightarrow> row list \<Rightarrow> jsval list" where
  "new_entries env name parsed =
     separator_obj name (sep_id env) #
     map (\<lambda>(idx, p). card_obj (question p) (answer p) (card_id env name idx))
       (enumerate 0 parsed)"

text \<open>The updater \<open>prev => [...prev, separator, ...cards]\<close>.\<close>

definition append_load :: "load_env \<Rightarrow> string \<Rightarrow> row list \<Rightarrow> jsval list \<Rightarrow> jsval list" where
  "append_load env name parsed prev = prev @ new_entries env name parsed"

record csv_file =
  file_name :: string
  file_text :: string

text \<open>
  \<open>reader.onload\<close> of \<open>handleFiles\<close>: \<open>file_text\<close> is \<open>e.target.result\<close>, and
  \<open>st\<close> is the state at the moment the callback's updater runs.
\<close>

definition onload :: "load_env \<Rightarrow> csv_file \<Rightarrow> app \<Rightarrow> app" where
  "onload env f st =
     st\<lparr>cards := append_load env (file_name f) (parseCSV (file_text f)) (cards st)\<rparr>"

text \<open>
  \<open>handleFiles\<close> starts one reader for each file and returns; the readers complete in
  any order, and each completion runs its \<open>onload\<close> on the state of that moment. The
  argument \<open>completions\<close> lists the files in the order of completion, each with what
  its updater reads from the platform.
\<close>

definition handleFiles :: "(load_env \<times> csv_file) list \<Rightarrow> app \<Rightarrow> app" where
  "handleFiles completions st = foldl (\<lambda>s (env, f). onload env f s) st completions"

text \<open>\<open>url.split('/').pop() || url\<close>.\<close>

definition url_name :: "string \<Rightarrow> string" where
  "url_name url =
     (let p = last (split_char (CHR ''/'') [] url) in if p = [] then url else p)"

text \<open>
  The two awaited values of \<open>loadFromUrl\<close>: \<open>fetch(url)\<close> rejects with a message or
  gives a response with its \<open>ok\<close> flag, and \<open>res.text()\<close> rejects or gives the text.
\<close>

datatype body = BodyError string | Body string

datatype fetched = FetchError string | Response bool body

definition alert_failure :: "string \<Rightarrow> app \<Rightarrow> app" where
  "alert_failure msg st = st\<lparr>alerts := alerts st @ [''Error cargando desde URL: '' @ msg]\<rparr>"

definition loadFromUrl :: "load_env \<Rightarrow> string \<Rightarrow> fetched \<Rightarrow> app \<Rightarrow> app" where
  "loadFromUrl env url r st =
     (case r of
        FetchError msg \<Rightarrow> alert_failure msg st
      | Response ok b \<Rightarrow>
          if \<not> ok then alert_failure ''No se pudo obtener el archivo'' st
          else
            (case b of
               BodyError msg \<Rightarrow> alert_failure msg st
             | Body text \<Rightarrow>
                 st\<lparr>cards := append_load env (url_name url) (parseCSV text) (cards st)\<rparr>))"

text \<open>\<open>clearAll\<close>; the argument is the answer of \<open>confirm\<close>.\<close>

definition clearAll :: "bool \<Rightarrow> app \<Rightarrow> app" where
  "clearAll confirmed st =
     (if \<not> confirmed then st
      else st\<lparr>cards := [], flipped := {}, storage := None\<rparr>)"

subsection \<open>Persistence\<close>

text \<open>
  The effect that runs once at start. \<open>parse\<close> is the platform's \<open>JSON.parse\<close>, with
  \<open>None\<close> for a thrown SyntaxError. An absent item and the empty string are falsy.
\<close>

definition load_on_start :: "(string \<Rightarrow> jsval option) \<Rightarrow> app \<Rightarrow> app" where
  "load_on_start parse st =
     (case storage st of
        None \<Rightarrow> st
      | Some saved \<Rightarrow>
          if saved = [] then st
          else
            (case parse saved of
               None \<Rightarrow>
                 st\<lparr>console_errors := console_errors st @ [''Error cargando datos guardados:'']\<rparr>
             | Some parsed \<Rightarrow>
                 (case parsed of
                    JArr xs \<Rightarrow> if length xs > 0 then st\<lparr>cards := xs\<rparr> else st
                  | _ \<Rightarrow> st)))"

text \<open>
  The effect that runs when \<open>cards\<close> has changed. \<open>stringify\<close> is the platform's
  \<open>JSON.stringify\<close>; \<open>write_ok\<close> is false when \<open>localStorage.setItem\<close> throws.
\<close>

definition save_on_change :: "(jsval \<Rightarrow> string) \<Rightarrow> bool \<Rightarrow> app \<Rightarrow> app" where
  "save_on_change stringify write_ok st =
     (if length (cards st) > 0 then
        (if write_ok then st\<lparr>storage := Some (stringify (JArr (cards st)))\<rparr>
         else st\<lparr>console_errors := console_errors st @ [''Error guardando datos:'']\<rparr>)
      else st\<lparr>storage := None\<rparr>)"

subsection \<open>Export\<close>

text \<open>
  \<open>String(v)\<close> and the template literal: a string is itself; \<open>to_str\<close> is the
  platform's conversion of the other values.
\<close>

definition js_String :: "(jsval \<Rightarrow> string) \<Rightarrow> jsval \<Rightarrow> string" where
  "js_String to_str v = (case v of JStr s \<Rightarrow> s | _ \<Rightarrow> to_str v)"

text \<open>
  The callback of \<open>cards.forEach\<close>: the rows that it pushes for one entry, none for an
  entry that is neither a separator nor a card.
\<close>

definition export_row :: "(jsval \<Rightarrow> string) \<Rightarrow> jsval \<Rightarrow> js_error + jsval list list" where
  "export_row to_str c =
     (case get_prop c ''type'' of
        Inl e \<Rightarrow> Inl e
      | Inr t \<Rightarrow>
          if t = JStr ''separator'' then
            (case get_prop c ''title'' of
               Inl e \<Rightarrow> Inl e
             | Inr title \<Rightarrow> Inr [[JStr (''#'' @ js_String to_str title)]])
          else if t = JStr ''card'' then
            (case get_prop c ''question'' of
               Inl e \<Rightarrow> Inl e
             | Inr q \<Rightarrow>
                 (case get_prop c ''answer'' of
                    Inl e \<Rightarrow> Inl e
                  | Inr a \<Rightarrow> Inr [[q, a]]))
          else Inr [])"

text \<open>The loop that fills \<open>rows\<close>; a thrown error ends the export.\<close>

fun export_rows :: "(jsval \<Rightarrow> string) \<Rightarrow> jsval list \<Rightarrow> js_error + jsval list list" where
  "export_rows to_str [] = Inr []"
| "export_rows to_str (c # cs) =
     (case export_row to_str c of
        Inl e \<Rightarrow> Inl e
      | Inr r \<Rightarrow>
          (case export_rows to_str cs of
             Inl e \<Rightarrow> Inl e
           | Inr rows \<Rightarrow> Inr (r @ rows)))"

text \<open>The function mapped over the fields of a row.\<close>

definition csv_field :: "(jsval \<Rightarrow> string) \<Rightarrow> jsval \<Rightarrow> string" where
  "csv_field to_str field =
     (if field = JNull \<or> field = JUndefined then []
      else quote_field (js_String to_str field))"

text \<open>\<open>exportAllAsCSV\<close>: the text \<open>csv\<close> that is handed to the download.\<close>

definition exportAllAsCSV :: "(jsval \<Rightarrow> string) \<Rightarrow> jsval list \<Rightarrow> js_error + string" where
  "exportAllAsCSV to_str deck =
     (case export_rows to_str deck of
        Inl e \<Rightarrow> Inl e
      | Inr rows \<Rightarrow>
          Inr (join [newline] (map (\<lambda>r. join [comma] (map (csv_field to_str) r)) rows)))"

subsection \<open>A reference JSON codec\<close>

text \<open>
  \<open>JSON.stringify\<close> and \<open>JSON.parse\<close> belong to the platform and are parameters of
  the persistence effects above. \<open>json_text\<close> and \<open>json_read\<close> are a printer and a
  reader for the JSON texts that the application writes: \<open>null\<close>, booleans, strings,
  arrays and objects without repeated keys. The printer escapes a string as
  \<open>JSON.stringify\<close> does (quote, backslash, the short escapes, \<open>\u00XX\<close> for the
  other control characters). The reader accepts white space between tokens and every
  escape of the grammar; number literals, and \<open>\u\<close> escapes above \<open>00FF\<close>, are
  outside the fragment that it accepts.
\<close>

definition bslash :: char where
  "bslash = CHR 0x5C"

definition hex_digit :: "nat \<Rightarrow> char" where
  "hex_digit n = (if n < 10 then char_of (48 + n) else char_of (87 + n))"

definition json_esc :: "char \<Rightarrow> string" where
  "json_esc c =
     (if c = dquote then [bslash, dquote]
      else if c = bslash then [bslash, bslash]
      else if c = CHR 0x08 then [bslash, CHR ''b'']
      else if c = CHR 0x09 then [bslash, CHR ''t'']
      else if c = CHR 0x0A then [bslash, CHR ''n'']
      else if c = CHR 0x0C then [bslash, CHR ''f'']
      else if c = CHR 0x0D then [bslash, CHR ''r'']
      else if (of_char c :: nat) < 32
        then [bslash, CHR ''u'', CHR ''0'', CHR ''0'',
              hex_digit (of_char c div 16), hex_digit (of_char c mod 16)]
      else [c])"

definition json_quote :: "string \<Rightarrow> string" where
  "json_quote s = [dquote] @ concat (map json_esc s) @ [dquote]"

fun json_text :: "jsval \<Rightarrow> string" where
  "json_text JUndefined = ''null''"
| "json_text JNull = ''null''"
| "json_text (JBool b) = (if b then ''true'' else ''false'')"
| "json_text (JNum n) = (if n < 0 then ''-'' @ show_nat (nat (- n)) else show_nat (nat n))"
| "json_text (JStr s) = json_quote s"
| "json_text (JArr xs) = ''['' @ join '','' (map json_text xs) @ '']''"
| "json_text (JObj kvs) =
     ''{'' @ join '','' (map (\<lambda>kv. json_quote (fst kv) @ '':'' @ json_text (snd kv))
                      (filter (\<lambda>kv. snd kv \<noteq> JUndefined) kvs)) @ ''}''"

definition json_ws :: "char \<Rightarrow> bool" where
  "json_ws c = (c = CHR 0x20 \<or> c = CHR 0x09 \<or> c = CHR 0x0A \<or> c = CHR 0x0D)"

definition hex_val :: "char \<Rightarrow> nat option" where
  "hex_val c =
     (let n = (of_char c :: nat) in
      if 48 \<le> n \<and> n \<le> 57 then Some (n - 48)
      else if 97 \<le> n \<and> n \<le> 102 then Some (n - 87)
      else if 65 \<le> n \<and> n \<le> 70 then Some (n - 55)
      else None)"

fun read_str :: "string \<Rightarrow> string \<Rightarrow> (string \<times> string) option" where
  "read_str acc [] = None"
| "read_str acc [c] = (if c = dquote then Some (acc, []) else None)"
| "read_str acc (c # e # cs) =
     (if c = dquote then Some (acc, e # cs)
      else if c = bslash then
        (if e = dquote \<or> e = bslash \<or> e = CHR ''/'' then read_str (acc @ [e]) cs
         else if e = CHR ''b'' then read_str (acc @ [CHR 0x08]) cs
         else if e = CHR ''t'' then read_str (acc @ [CHR 0x09]) cs
         else if e = CHR ''n'' then read_str (acc @ [CHR 0x0A]) cs
         else if e = CHR ''f'' then read_str (acc @ [CHR 0x0C]) cs
         else if e = CHR ''r'' then read_str (acc @ [CHR 0x0D]) cs
         else if e = CHR ''u'' then
           (case map hex_val (take 4 cs) of
              [Some a, Some b, Some c, Some d] \<Rightarrow>
                if a = 0 \<and> b = 0 then read_str (acc @ [char_of (16 * c + d)]) (drop 4 cs)
                else None
            | _ \<Rightarrow> None)
         else None)
      else if (of_char c :: nat) < 32 then None
      else read_str (acc @ [c]) (e # cs))"

definition skip_ws :: "string \<Rightarrow> string" where
  "skip_ws s = dropWhile json_ws s"

text \<open>\<open>after c s\<close>: the input behind the token \<open>c\<close>, when \<open>c\<close> comes next.\<close>

definition after :: "char \<Rightarrow> string \<Rightarrow> string option" where
  "after c s = (case skip_ws s of [] \<Rightarrow> None | x # r \<Rightarrow> if x = c then Some r else None)"

definition read_atom :: "string \<Rightarrow> (jsval \<times> string) option" where
  "read_atom s =
     (let t = skip_ws s in
      if take 4 t = ''null'' then Some (JNull, drop 4 t)
      else if take 4 t = ''true'' then Some (JBool True, drop 4 t)
      else if take 5 t = ''false'' then Some (JBool False, drop 5 t)
      else
        (case after dquote t of
           None \<Rightarrow> None
         | Some r \<Rightarrow>
             (case read_str [] r of None \<Rightarrow> None | Some (x, r1) \<Rightarrow> Some (JStr x, r1))))"

definition read_key :: "string \<Rightarrow> (string \<times> string) option" where
  "read_key s =
     (case after dquote s of
        None \<Rightarrow> None
      | Some r \<Rightarrow>
          (case read_str [] r of
             None \<Rightarrow> None
           | Some (k, r1) \<Rightarrow>
               (case after (CHR '':'') r1 of None \<Rightarrow> None | Some r2 \<Rightarrow> Some (k, r2))))"

fun read_value :: "nat \<Rightarrow> string \<Rightarrow> (jsval \<times> string) option"
  and read_elems :: "nat \<Rightarrow> jsval list \<Rightarrow> string \<Rightarrow> (jsval \<times> string) option"
  and read_members :: "nat \<Rightarrow> (string \<times> jsval) list \<Rightarrow> string \<Rightarrow> (jsval \<times> string) option"
where
  "read_value 0 s = None"
| "read_value (Suc n) s =
     (case after (CHR ''['') s of
        Some r \<Rightarrow>
          (case after (CHR '']'') r of
             Some r1 \<Rightarrow> Some (JArr [], r1)
           | None \<Rightarrow> read_elems n [] r)
      | None \<Rightarrow>
          (case after (CHR ''{'') s of
             Some r \<Rightarrow>
               (case after (CHR ''}'') r of
                  Some r1 \<Rightarrow> Some (JObj [], r1)
                | None \<Rightarrow> read_members n [] r)
           | None \<Rightarrow> read_atom s))"
| "read_elems 0 acc s = None"
| "read_elems (Suc n) acc s =
     (case read_value n s of
        None \<Rightarrow> None
      | Some (v, r) \<Rightarrow>
          (case after comma r of
             Some r1 \<Rightarrow> read_elems n (acc @ [v]) r1
           | None \<Rightarrow>
               (case after (CHR '']'') r of
                  Some r1 \<Rightarrow> Some (JArr (acc @ [v]), r1)
                | None \<Rightarrow> None)))"
| "read_members 0 acc s = None"
| "read_members (Suc n) acc s =
     (case read_key s of
        None \<Rightarrow> None
      | Some (k, r) \<Rightarrow>
          (case read_value n r of
             None \<Rightarrow> None
           | Some (v, r1) \<Rightarrow>
               (case after comma r1 of
                  Some r2 \<Rightarrow> read_members n (acc @ [(k, v)]) r2
                | None \<Rightarrow>
                    (case after (CHR ''}'') r1 of
                       Some r2 \<Rightarrow> Some (JObj (acc @ [(k, v)]), r2)
                     | None \<Rightarrow> None))))"

definition json_read :: "string \<Rightarrow> jsval option" where
  "json_read s =
     (case read_value (Suc (length s)) s of
        None \<Rightarrow> None
      | Some (v, r) \<Rightarrow> if skip_ws r = [] then Some v else None)"

text \<open>
  The values of the fragment: no \<open>undefined\<close> and no number inside. \<open>need\<close> bounds the
  depth of calls that \<open>read_value\<close> makes on the text of a value.
\<close>

fun json_ok :: "jsval \<Rightarrow> bool" where
  "json_ok JUndefined = False"
| "json_ok JNull = True"
| "json_ok (JBool b) = True"
| "json_ok (JNum n) = False"
| "json_ok (JStr s) = True"
| "json_ok (JArr xs) = list_all json_ok xs"
| "json_ok (JObj kvs) = list_all (\<lambda>kv. json_ok (snd kv)) kvs"

fun need :: "jsval \<Rightarrow> nat" where
  "need (JArr xs) = Suc (sum_list (map (\<lambda>x. Suc (need x)) xs))"
| "need (JObj kvs) = Suc (sum_list (map (\<lambda>kv. Suc (need (snd kv))) kvs))"
| "need v = 1"

definition starter :: "char \<Rightarrow> bool" where
  "starter c = (c \<in> {CHR ''n'', CHR ''t'', CHR ''f'', dquote, CHR ''['', CHR ''{''})"

definition member_text :: "string \<times> jsval \<Rightarrow> string" where
  "member_text kv = json_quote (fst kv) @ '':'' @ json_text (snd kv)"

section \<open>Properties of the codec\<close>

subsection \<open>Trimming and line splitting\<close>

lemma trim_empty_iff: "trim s = [] \<longleftrightarrow> (\<forall>c \<in> set s. is_ws c)"
proof
  assume "trim s = []"
  then have a: "\<forall>x \<in> set (dropWhile is_ws s). is_ws x"
    by (simp add: trim_def)
  have "dropWhile is_ws s = []"
  proof (rule ccontr)
    assume n: "dropWhile is_ws s \<noteq> []"
    then have "\<not> is_ws (hd (dropWhile is_ws s))" by (rule hd_dropWhile)
    moreover have "hd (dropWhile is_ws s) \<in> set (dropWhile is_ws s)" using n by simp
    ultimately show False using a by blast
  qed
  then show "\<forall>c \<in> set s. is_ws c" by simp
next
  assume "\<forall>c \<in> set s. is_ws c"
  then show "trim s = []" by (auto simp: trim_def dest: set_dropWhileD)
qed

lemma dropWhile_unchanged: "xs = [] \<or> \<not> P (hd xs) \<Longrightarrow> dropWhile P xs = xs"
  by (cases xs) auto

lemma trim_idem: "trim (trim s) = trim s"
proof -
  define d where "d = dropWhile is_ws s"
  define e where "e = dropWhile is_ws (rev d)"
  have t: "trim s = rev e" by (simp add: trim_def d_def e_def)
  have d0: "d = [] \<or> \<not> is_ws (hd d)"
    unfolding d_def using hd_dropWhile[of is_ws s] by blast
  have e0: "e = [] \<or> \<not> is_ws (hd e)"
    unfolding e_def using hd_dropWhile[of is_ws "rev d"] by blast
  show ?thesis
  proof (cases "e = []")
    case True
    then have ts: "trim s = []" using t by simp
    have tn: "trim [] = []" by (simp add: trim_def)
    show ?thesis by (simp only: ts tn)
  next
    case False
    then have "rev d = takeWhile is_ws (rev d) @ e" by (simp add: e_def)
    then have "d = rev e @ rev (takeWhile is_ws (rev d))" by (metis rev_append rev_rev_ident)
    then have "hd d = hd (rev e)" using False by (metis hd_append2 rev_is_Nil_conv)
    moreover have "d \<noteq> []" using False e_def by auto
    ultimately have "\<not> is_ws (hd (rev e))" using d0 by simp
    then have 1: "dropWhile is_ws (rev e) = rev e" by (simp add: dropWhile_unchanged)
    have 2: "dropWhile is_ws e = e" using e0 by (simp add: dropWhile_unchanged)
    have "trim (rev e) = rev e" using 1 2 by (simp add: trim_def)
    then show ?thesis by (simp only: t)
  qed
qed

lemma trim_snoc_ws:
  assumes "is_ws c"
  shows "trim (s @ [c]) = trim s"
proof (cases "\<forall>x\<in>set s. is_ws x")
  case True
  then have "trim s = []" by (simp add: trim_empty_iff)
  moreover have "trim (s @ [c]) = []" using True assms by (simp add: trim_empty_iff)
  ultimately show ?thesis by simp
next
  case False
  then have "dropWhile is_ws (s @ [c]) = dropWhile is_ws s @ [c]"
    by (auto simp: dropWhile_append)
  then show ?thesis using assms by (simp add: trim_def)
qed

lemma cret_ws: "is_ws cret"
  by (simp add: is_ws_def cret_def)

text \<open>A line feed in the text separates the rows before it from the rows after it.\<close>

lemma split_lines_newline:
  "map trim (split_lines cur (t1 @ newline # t2)) =
   map trim (split_lines cur t1) @ map trim (split_lines [] t2)"
proof (induction t1 arbitrary: cur rule: length_induct)
  case (1 t1)
  note IH = 1[rule_format]
  show ?case
  proof (cases t1)
    case Nil
    then show ?thesis by simp
  next
    case (Cons x xs)
    show ?thesis
    proof (cases "x = newline")
      case True
      then show ?thesis using Cons IH[of xs "[]"] by simp
    next
      case xnl: False
      show ?thesis
      proof (cases xs)
        case Nil
        then show ?thesis using Cons xnl trim_snoc_ws[OF cret_ws, of cur] by auto
      next
        case (Cons y ys)
        show ?thesis
        proof (cases "x = cret \<and> y = newline")
          case True
          then show ?thesis using \<open>t1 = x # xs\<close> Cons xnl IH[of ys "[]"] by simp
        next
          case False
          then show ?thesis using \<open>t1 = x # xs\<close> Cons xnl IH[of xs "cur @ [x]"] by auto
        qed
      qed
    qed
  qed
qed

lemma split_lines_subset: "l \<in> set (split_lines cur s) \<Longrightarrow> set l \<subseteq> set cur \<union> set s"
proof (induction s arbitrary: cur rule: length_induct)
  case (1 s)
  note IH = 1(1)[rule_format]
  show ?case
  proof (cases s)
    case Nil
    then show ?thesis using 1(2) by simp
  next
    case (Cons x xs)
    show ?thesis
    proof (cases "x = newline")
      case True
      then show ?thesis using Cons 1(2) IH[of xs "[]"] by auto
    next
      case xnl: False
      show ?thesis
      proof (cases "x = cret \<and> xs \<noteq> [] \<and> hd xs = newline")
        case True
        then obtain ys where ys: "xs = newline # ys" by (cases xs) auto
        then show ?thesis using Cons 1(2) xnl True IH[of ys "[]"] by auto
      next
        case False
        then have "l \<in> set (split_lines (cur @ [x]) xs)" using Cons 1(2) xnl by auto
        then show ?thesis using Cons IH[of xs "cur @ [x]"] by auto
      qed
    qed
  qed
qed

subsection \<open>The row loop\<close>

lemma parse_rows_trimmed:
  "r \<in> set (parse_rows rows) \<Longrightarrow>
   (question r \<noteq> [] \<or> answer r \<noteq> []) \<and>
   trim (question r) = question r \<and> trim (answer r) = answer r"
  by (induction rows) (auto simp: Let_def trim_idem split: if_splits)

lemma parse_rows_append: "parse_rows (xs @ ys) = parse_rows xs @ parse_rows ys"
  by (induction xs) (auto simp: Let_def)

lemma parse_rows_filter: "parse_rows (filter (\<lambda>l. l \<noteq> []) rows) = parse_rows rows"
  by (induction rows) (auto simp: Let_def)

lemma parse_rows_blank: "\<forall>l \<in> set rows. l = [] \<Longrightarrow> parse_rows rows = []"
  by (induction rows) auto

lemma parseCSV_newline: "parseCSV (t1 @ newline # t2) = parseCSV t1 @ parseCSV t2"
  by (simp add: parseCSV_def split_lines_newline parse_rows_append)

lemma parseCSV_blank:
  assumes "trim b = []"
  shows "parseCSV b = []"
proof -
  have "\<forall>l \<in> set (split_lines [] b). trim l = []"
    using assms split_lines_subset[of _ "[]" b] by (fastforce simp: trim_empty_iff)
  then show ?thesis by (simp add: parseCSV_def parse_rows_blank)
qed

subsection \<open>The tokenizer\<close>

lemma comma_not_dquote: "comma \<noteq> dquote"
  by (simp add: comma_def dquote_def)

text \<open>Outside quotes, a run without quote and comma goes to the current field.\<close>

lemma scan_plain:
  "dquote \<notin> set s \<Longrightarrow> comma \<notin> set s \<Longrightarrow>
   scan res cur False (s @ rest) = scan res (cur @ s) False rest"
  by (induction s arbitrary: cur) auto

text \<open>Inside quotes, a field with doubled quotes is read back up to its closing quote.\<close>

lemma scan_quoted_body:
  "rest = [] \<or> hd rest \<noteq> dquote \<Longrightarrow>
   scan res cur True (double_quotes s @ dquote # rest) = scan res (cur @ s) False rest"
  by (induction s arbitrary: cur) (auto simp: double_quotes_def)

lemma scan_quote_field:
  "rest = [] \<or> hd rest \<noteq> dquote \<Longrightarrow>
   scan res cur False (quote_field s @ rest) = scan res (cur @ s) False rest"
  using scan_quoted_body[of rest res cur s] scan_plain[of s res cur rest]
  by (auto simp: quote_field_def)

text \<open>Inside quotes and with no further quote, the rest of the line is one field.\<close>

lemma scan_inside:
  "dquote \<notin> set s \<Longrightarrow> scan res cur True s = res @ [cur @ s]"
  by (induction s arbitrary: cur) auto

text \<open>Every quote in the output costs two quotes of the input.\<close>

lemma scan_quote_budget:
  "2 * count_list (concat (scan res cur inq line)) dquote
     \<le> 2 * count_list (concat res @ cur) dquote + count_list line dquote"
proof (induction res cur inq line rule: scan.induct)
  case (1 res cur inQuotes)
  then show ?case by simp
next
  case (2 res cur inQuotes ch rest)
  show ?case
  proof (cases "ch = dquote \<and> inQuotes \<and> rest \<noteq> [] \<and> hd rest = dquote")
    case True
    then obtain r where r: "rest = dquote # r" by (cases rest) auto
    with True 2 show ?thesis by simp
  next
    case False
    with 2 show ?thesis by auto
  qed
qed

text \<open>A line without two adjacent quotes gives fields without quotes.\<close>

lemma scan_no_escape:
  "(\<And>a b. line \<noteq> a @ dquote # dquote # b) \<Longrightarrow> dquote \<notin> set (concat res @ cur) \<Longrightarrow>
   dquote \<notin> set (concat (scan res cur inq line))"
proof (induction res cur inq line rule: scan.induct)
  case (1 res cur inQuotes)
  then show ?case by simp
next
  case (2 res cur inQuotes ch rest)
  have suffix: "rest \<noteq> a @ dquote # dquote # b" for a b
    using "2.prems"(1)[of "ch # a" b] by auto
  have noesc: "\<not> (ch = dquote \<and> rest \<noteq> [] \<and> hd rest = dquote)"
  proof
    assume a: "ch = dquote \<and> rest \<noteq> [] \<and> hd rest = dquote"
    then obtain r where "rest = dquote # r" by (cases rest) auto
    then show False using "2.prems"(1)[of "[]" r] a by simp
  qed
  show ?case
  proof (cases "ch = dquote")
    case True
    have n: "\<not> (inQuotes \<and> rest \<noteq> [] \<and> hd rest = dquote)" using noesc True by simp
    have eq: "scan res cur inQuotes (ch # rest) = scan res cur (\<not> inQuotes) rest"
      using True n by (simp del: de_Morgan_conj)
    show ?thesis unfolding eq by (rule "2.IH"(2)[OF True n suffix "2.prems"(2)])
  next
    case False
    show ?thesis
    proof (cases "ch = comma \<and> \<not> inQuotes")
      case True
      have eq: "scan res cur inQuotes (ch # rest) = scan (res @ [cur]) [] inQuotes rest"
        using True False by simp
      have p: "dquote \<notin> set (concat (res @ [cur]) @ [])" using "2.prems"(2) by simp
      show ?thesis unfolding eq by (rule "2.IH"(3)[OF False True suffix p])
    next
      case c: False
      have eq: "scan res cur inQuotes (ch # rest) = scan res (cur @ [ch]) inQuotes rest"
        using c False by (simp del: de_Morgan_conj)
      have p: "dquote \<notin> set (concat res @ cur @ [ch])" using "2.prems"(2) False by simp
      show ?thesis unfolding eq by (rule "2.IH"(4)[OF False c suffix p])
    qed
  qed
qed

section \<open>Properties of ingestion\<close>

lemma handleFiles_cards:
  "cards (handleFiles cs st) =
   cards st @
   concat (map (\<lambda>(env, f). new_entries env (file_name f) (parseCSV (file_text f))) cs)"
proof (induction cs arbitrary: st)
  case Nil
  then show ?case by (simp add: handleFiles_def)
next
  case (Cons c cs)
  obtain env f where c: "c = (env, f)" by (cases c)
  have "handleFiles (c # cs) st = handleFiles cs (onload env f st)"
    by (simp add: handleFiles_def c)
  then show ?case using Cons[of "onload env f st"]
    by (simp add: c onload_def append_load_def)
qed

lemma is_separator_simps [simp]:
  "is_separator (separator_obj t i)" "\<not> is_separator (card_obj q a i)"
  by (simp_all add: is_separator_def separator_obj_def card_obj_def)

lemma is_card_simps [simp]:
  "\<not> is_card (separator_obj t i)" "is_card (card_obj q a i)"
  by (simp_all add: is_card_def separator_obj_def card_obj_def)

lemma filter_sep_new_entries:
  "filter is_separator (new_entries env name parsed) = [separator_obj name (sep_id env)]"
  by (auto simp: new_entries_def filter_empty_conv split: prod.splits)

lemma length_cards_new_entries:
  "length (filter is_card (new_entries env name parsed)) = length parsed"
  by (simp add: new_entries_def filter_map o_def split_def)

lemma count_blocks:
  "length (filter is_separator (concat (map (\<lambda>(env, f).
      new_entries env (file_name f) (parseCSV (file_text f))) cs))) = length cs"
  "length (filter is_card (concat (map (\<lambda>(env, f).
      new_entries env (file_name f) (parseCSV (file_text f))) cs)))
     = sum_list (map (\<lambda>f. length (parseCSV (file_text f))) (map snd cs))"
  by (induction cs)
    (auto simp: filter_sep_new_entries length_cards_new_entries split: prod.splits)

lemma sum_list_mset_cong:
  "mset xs = mset ys \<Longrightarrow> sum_list (map g xs) = sum_list (map (g :: 'a \<Rightarrow> nat) ys)"
  by (metis mset_map sum_mset_sum_list)

lemma split_char_none: "c \<notin> set s \<Longrightarrow> split_char c cur s = [cur @ s]"
  by (induction s arbitrary: cur) auto

lemma split_char_nonempty: "split_char c cur s \<noteq> []"
  by (induction s arbitrary: cur) auto

lemma split_char_last: "c \<notin> set seg \<Longrightarrow> last (split_char c cur (pre @ c # seg)) = seg"
  by (induction pre arbitrary: cur) (auto simp: split_char_none split_char_nonempty)

lemma url_name_segment:
  "CHR ''/'' \<notin> set seg \<Longrightarrow> seg \<noteq> [] \<Longrightarrow> url_name (pre @ ''/'' @ seg) = seg"
  by (simp add: url_name_def split_char_last)

lemma url_name_trailing: "url_name (pre @ ''/'') = pre @ ''/''"
  using split_char_last[of "CHR ''/''" "[]" "[]" pre] by (simp add: url_name_def)

lemma url_name_plain: "CHR ''/'' \<notin> set url \<Longrightarrow> url_name url = url"
  by (simp add: url_name_def split_char_none)

section \<open>Properties of the reference JSON codec\<close>

lemma hex_val_digit: "k < 16 \<Longrightarrow> hex_val (hex_digit k) = Some k"
  by (auto simp: hex_val_def hex_digit_def Let_def)

lemma hex_val_zero: "hex_val (CHR ''0'') = Some 0"
  by (simp add: hex_val_def)

lemma read_str_esc:
  assumes "tail \<noteq> []"
  shows "read_str acc (json_esc c @ tail) = read_str (acc @ [c]) tail"
proof -
  obtain t ts where tl: "tail = t # ts" using assms by (cases tail) auto
  let ?n = "of_char c :: nat"
  have n: "16 * (?n div 16) + ?n mod 16 = ?n" by simp
  show ?thesis
  proof (cases "?n < 32")
    case True
    then have d: "?n div 16 < 16" "?n mod 16 < 16" by auto
    have rt: "char_of (16 * (?n div 16) + ?n mod 16) = c" by (simp only: n char_of_char)
    show ?thesis
      using True by (auto simp: json_esc_def tl dquote_def bslash_def hex_val_zero hex_val_digit[OF d(1)]
          hex_val_digit[OF d(2)] rt)
  next
    case False
    then show ?thesis
      by (auto simp: json_esc_def tl dquote_def bslash_def)
  qed
qed


lemma read_str_quote:
  "read_str acc (concat (map json_esc s) @ dquote # rest) = Some (acc @ s, rest)"
proof (induction s arbitrary: acc)
  case Nil
  then show ?case by (cases rest) auto
next
  case (Cons c s)
  have "read_str acc (json_esc c @ (concat (map json_esc s) @ dquote # rest))
        = read_str (acc @ [c]) (concat (map json_esc s) @ dquote # rest)"
    by (rule read_str_esc) simp
  then show ?case using Cons[of "acc @ [c]"] by simp
qed

lemma after_hit: "\<not> json_ws c \<Longrightarrow> after c (c # r) = Some r"
  by (simp add: after_def skip_ws_def)

lemma after_miss: "\<not> json_ws x \<Longrightarrow> x \<noteq> c \<Longrightarrow> after c (x # r) = None"
  by (simp add: after_def skip_ws_def)

lemma json_text_starts: "json_ok v \<Longrightarrow> \<exists>c r. json_text v = c # r \<and> starter c"
  by (cases v) (auto simp: starter_def json_quote_def)

lemma read_atom_str: "read_atom (json_quote s @ rest) = Some (JStr s, rest)"
  by (simp add: read_atom_def json_quote_def skip_ws_def json_ws_def dquote_def after_def
      read_str_quote[unfolded dquote_def])

lemma read_value_str: "read_value (Suc n) (json_quote s @ rest) = Some (JStr s, rest)"
  using read_atom_str[of s rest]
  by (simp add: json_quote_def after_def skip_ws_def json_ws_def dquote_def)

lemma read_value_null: "read_value (Suc n) (''null'' @ rest) = Some (JNull, rest)"
  by (simp add: read_atom_def after_def skip_ws_def json_ws_def)

lemma read_value_true: "read_value (Suc n) (''true'' @ rest) = Some (JBool True, rest)"
  by (simp add: read_atom_def after_def skip_ws_def json_ws_def)

lemma read_value_false: "read_value (Suc n) (''false'' @ rest) = Some (JBool False, rest)"
  by (simp add: read_atom_def after_def skip_ws_def json_ws_def)

lemma read_key_ok: "read_key (json_quote k @ '':'' @ rest) = Some (k, rest)"
  by (simp add: read_key_def json_quote_def after_def skip_ws_def json_ws_def dquote_def
      read_str_quote[unfolded dquote_def])


lemma rbracket_plain: "\<not> json_ws (CHR '']'')" "CHR '']'' \<noteq> comma"
  "\<not> json_ws comma" "\<not> json_ws (CHR ''}'')" "CHR ''}'' \<noteq> comma"
  "\<not> json_ws (CHR ''['')" "\<not> json_ws (CHR ''{'')" "CHR ''{'' \<noteq> CHR ''[''"
  by (simp_all add: json_ws_def comma_def)

lemma starter_plain:
  "starter c \<Longrightarrow> \<not> json_ws c \<and> c \<noteq> CHR '']'' \<and> c \<noteq> CHR ''}''"
  by (auto simp: starter_def json_ws_def dquote_def)

lemma read_elems_ok:
  assumes "\<And>x n rest. x \<in> set xs \<Longrightarrow> need x \<le> n \<Longrightarrow>
             read_value n (json_text x @ rest) = Some (x, rest)"
    and "xs \<noteq> []"
    and "sum_list (map (\<lambda>x. Suc (need x)) xs) \<le> F"
  shows "read_elems F acc (join '','' (map json_text xs) @ CHR '']'' # rest)
         = Some (JArr (acc @ xs), rest)"
  using assms
proof (induction xs arbitrary: F acc)
  case Nil
  then show ?case by simp
next
  case (Cons x xs)
  from Cons.prems(3) obtain F' where F: "F = Suc F'" and nx: "need x \<le> F'"
    and rest_le: "sum_list (map (\<lambda>x. Suc (need x)) xs) \<le> F'"
    by (cases F) auto
  show ?case
  proof (cases xs)
    case Nil
    have "read_value F' (json_text x @ CHR '']'' # rest) = Some (x, CHR '']'' # rest)"
      using Cons.prems(1)[of x F'] nx by simp
    then show ?thesis
      using Nil F by (simp add: after_hit after_miss rbracket_plain)
  next
    case (Cons y ys)
    have 1: "read_value F' (json_text x @ comma # join '','' (map json_text xs) @ CHR '']'' # rest)
             = Some (x, comma # join '','' (map json_text xs) @ CHR '']'' # rest)"
      using Cons.prems(1)[of x F'] nx by simp
    have 2: "read_elems F' (acc @ [x]) (join '','' (map json_text xs) @ CHR '']'' # rest)
             = Some (JArr ((acc @ [x]) @ xs), rest)"
      using Cons.IH[of F' "acc @ [x]"] Cons.prems(1) rest_le Cons by simp
    have j: "join '','' (map json_text (x # xs)) = json_text x @ comma # join '','' (map json_text xs)"
      using Cons by (simp add: comma_def)
    show ?thesis
      unfolding j F using 1 2 by (simp add: after_hit rbracket_plain)
  qed
qed


lemma read_members_ok:
  assumes "\<And>kv n rest. kv \<in> set kvs \<Longrightarrow> need (snd kv) \<le> n \<Longrightarrow>
             read_value n (json_text (snd kv) @ rest) = Some (snd kv, rest)"
    and "kvs \<noteq> []"
    and "sum_list (map (\<lambda>kv. Suc (need (snd kv))) kvs) \<le> F"
  shows "read_members F acc (join '','' (map member_text kvs) @ CHR ''}'' # rest)
         = Some (JObj (acc @ kvs), rest)"
  using assms
proof (induction kvs arbitrary: F acc)
  case Nil
  then show ?case by simp
next
  case (Cons kv kvs)
  obtain k v where kv: "kv = (k, v)" by (cases kv)
  from Cons.prems(3) obtain F' where F: "F = Suc F'" and nx: "need v \<le> F'"
    and rest_le: "sum_list (map (\<lambda>kv. Suc (need (snd kv))) kvs) \<le> F'"
    by (cases F) (auto simp: kv)
  show ?case
  proof (cases kvs)
    case Nil
    have "read_value F' (json_text v @ CHR ''}'' # rest) = Some (v, CHR ''}'' # rest)"
      using Cons.prems(1)[of kv F'] nx by (simp add: kv)
    then show ?thesis
      using Nil F read_key_ok[of k "json_text v @ CHR ''}'' # rest"]
      by (simp add: kv member_text_def after_hit after_miss rbracket_plain)
  next
    case (Cons kv2 kvs2)
    have 1: "read_value F' (json_text v @ comma # join '','' (map member_text kvs) @ CHR ''}'' # rest)
             = Some (v, comma # join '','' (map member_text kvs) @ CHR ''}'' # rest)"
      using Cons.prems(1)[of kv F'] nx by (simp add: kv)
    have 2: "read_members F' (acc @ [kv]) (join '','' (map member_text kvs) @ CHR ''}'' # rest)
             = Some (JObj ((acc @ [kv]) @ kvs), rest)"
      using Cons.IH[of F' "acc @ [kv]"] Cons.prems(1) rest_le Cons by simp
    have j: "join '','' (map member_text (kv # kvs)) =
             json_quote k @ '':'' @ json_text v @ comma # join '','' (map member_text kvs)"
      using Cons by (simp add: comma_def member_text_def kv)
    have key: "read_key ((json_quote k @ '':'' @ json_text v @ comma #
                 join '','' (map member_text kvs)) @ CHR ''}'' # rest)
               = Some (k, json_text v @ comma # join '','' (map member_text kvs) @ CHR ''}'' # rest)"
      using read_key_ok[of k "json_text v @ comma # join '','' (map member_text kvs) @ CHR ''}'' # rest"]
      by simp
    show ?thesis
      unfolding j F using 1 2 key by (simp add: after_hit rbracket_plain kv)
  qed
qed

lemma filter_defined: "list_all (\<lambda>kv. json_ok (snd kv)) kvs \<Longrightarrow>
   filter (\<lambda>kv. snd kv \<noteq> JUndefined) kvs = kvs"
  by (induction kvs) auto

lemma json_text_obj:
  "list_all (\<lambda>kv. json_ok (snd kv)) kvs \<Longrightarrow>
   json_text (JObj kvs) = CHR ''{'' # join '','' (map member_text kvs) @ ''}''"
  by (simp add: filter_defined member_text_def[abs_def])

lemma read_value_ok:
  "json_ok v \<Longrightarrow> need v \<le> n \<Longrightarrow> read_value n (json_text v @ rest) = Some (v, rest)"
proof (induction v arbitrary: n rest)
  case JUndefined
  then show ?case by simp
next
  case JNull
  then obtain m where n: "n = Suc m" by (cases n) auto
  show ?case unfolding n using read_value_null[of m rest] by (simp del: read_value.simps)
next
  case (JBool b)
  then obtain m where n: "n = Suc m" by (cases n) auto
  show ?case unfolding n using read_value_true[of m rest] read_value_false[of m rest]
    by (cases b) (simp_all del: read_value.simps)
next
  case (JNum k)
  then show ?case by simp
next
  case (JStr s)
  then obtain m where n: "n = Suc m" by (cases n) auto
  show ?case unfolding n using read_value_str[of m s rest] by (simp del: read_value.simps)
next
  case (JArr xs)
  from JArr.prems(2) obtain m where n: "n = Suc m"
    and m: "sum_list (map (\<lambda>x. Suc (need x)) xs) \<le> m" by (cases n) auto
  show ?case
  proof (cases xs)
    case Nil
    then show ?thesis by (simp add: n after_hit rbracket_plain)
  next
    case (Cons y ys)
    have ok: "json_ok y" using JArr.prems(1) Cons by simp
    obtain c r where c: "json_text y = c # r" "starter c"
      using json_text_starts[OF ok] by blast
    have miss: "after (CHR '']'') (join '','' (map json_text xs) @ CHR '']'' # rest) = None"
      using Cons c starter_plain[OF c(2)] by (cases ys) (auto simp: after_miss)
    have el: "read_elems m [] (join '','' (map json_text xs) @ CHR '']'' # rest)
              = Some (JArr ([] @ xs), rest)"
    proof (rule read_elems_ok)
      fix x k r'
      assume "x \<in> set xs" "need x \<le> k"
      then show "read_value k (json_text x @ r') = Some (x, r')"
        using JArr.IH[of x k r'] JArr.prems(1) by (simp add: list_all_iff)
    next
      show "xs \<noteq> []" using Cons by simp
    next
      show "sum_list (map (\<lambda>x. Suc (need x)) xs) \<le> m" by (rule m)
    qed
    show ?thesis using miss el by (simp add: n after_hit rbracket_plain)
  qed
next
  case (JObj kvs)
  from JObj.prems(2) obtain m where n: "n = Suc m"
    and m: "sum_list (map (\<lambda>kv. Suc (need (snd kv))) kvs) \<le> m" by (cases n) auto
  have okl: "list_all (\<lambda>kv. json_ok (snd kv)) kvs" using JObj.prems(1) by simp
  note jt = json_text_obj[OF okl]
  show ?case
  proof (cases kvs)
    case Nil
    then show ?thesis by (simp add: n after_hit after_miss rbracket_plain)
  next
    case (Cons kv kvs2)
    have miss: "after (CHR ''}'') (join '','' (map member_text kvs) @ CHR ''}'' # rest) = None"
      using Cons by (cases kvs2) (auto simp: after_miss member_text_def json_quote_def
          json_ws_def dquote_def)
    have el: "read_members m [] (join '','' (map member_text kvs) @ CHR ''}'' # rest)
              = Some (JObj ([] @ kvs), rest)"
    proof (rule read_members_ok)
      fix kv k r'
      assume a: "kv \<in> set kvs" "need (snd kv) \<le> k"
      obtain x y where xy: "kv = (x, y)" by (cases kv)
      have "json_ok y" using okl a(1) xy by (auto simp: list_all_iff)
      then show "read_value k (json_text (snd kv) @ r') = Some (snd kv, r')"
        using JObj.IH[of kv y k r'] a xy by simp
    next
      show "kvs \<noteq> []" using Cons by simp
    next
      show "sum_list (map (\<lambda>kv. Suc (need (snd kv))) kvs) \<le> m" by (rule m)
    qed
    show ?thesis unfolding jt using miss el by (simp add: n after_hit after_miss rbracket_plain)
  qed
qed


lemma length_join:
  "xs \<noteq> [] \<Longrightarrow> Suc (length (join [c] xs)) = sum_list (map (\<lambda>x. Suc (length x)) xs)"
  by (induction "[c]" xs rule: join.induct) auto

lemma need_le_length: "json_ok v \<Longrightarrow> need v \<le> length (json_text v)"
proof (induction v)
  case (JArr xs)
  show ?case
  proof (cases "xs = []")
    case True
    then show ?thesis by simp
  next
    case False
    have "sum_list (map (\<lambda>x. Suc (need x)) xs) \<le> sum_list (map (\<lambda>x. Suc (length x)) (map json_text xs))"
      unfolding map_map o_def
      by (rule sum_list_mono) (use JArr in \<open>auto simp: list_all_iff\<close>)
    also have "\<dots> = Suc (length (join '','' (map json_text xs)))"
      using length_join[of "map json_text xs" "CHR '',''"] False by simp
    finally show ?thesis by simp
  qed
next
  case (JObj kvs)
  then have okl: "list_all (\<lambda>kv. json_ok (snd kv)) kvs" by simp
  show ?case
  proof (cases "kvs = []")
    case True
    then show ?thesis by simp
  next
    case False
    have "sum_list (map (\<lambda>kv. Suc (need (snd kv))) kvs)
          \<le> sum_list (map (\<lambda>x. Suc (length x)) (map member_text kvs))"
      unfolding map_map o_def
    proof (rule sum_list_mono)
      fix kv assume a: "kv \<in> set kvs"
      obtain x y where xy: "kv = (x, y)" by (cases kv)
      have "json_ok y" using okl a xy by (auto simp: list_all_iff)
      then have "need y \<le> length (json_text y)" using JObj.IH[of kv y] a xy by simp
      then show "Suc (need (snd kv)) \<le> Suc (length (member_text kv))"
        by (simp add: xy member_text_def)
    qed
    also have "\<dots> = Suc (length (join '','' (map member_text kvs)))"
      using length_join[of "map member_text kvs" "CHR '',''"] False by simp
    finally show ?thesis unfolding json_text_obj[OF okl] by simp
  qed
qed (simp_all add: json_quote_def)

lemma json_read_text: 
  assumes "json_ok v" 
  shows "json_read (json_text v) = Some v" and "json_text v \<noteq> []"
proof -
  have "read_value (Suc (length (json_text v))) (json_text v @ []) = Some (v, [])"
    using assms need_le_length[OF assms] by (intro read_value_ok) auto
  then show "json_read (json_text v) = Some v"
    by (simp add: json_read_def skip_ws_def)
  show "json_text v \<noteq> []" using json_text_starts[OF assms] by auto
qed

lemma entries_json_ok: "json_ok (separator_obj t i)" "json_ok (card_obj q a i)"
  by (simp_all add: separator_obj_def card_obj_def)

lemma new_entries_json_ok: "list_all json_ok (new_entries env name parsed)"
  by (simp add: new_entries_def entries_json_ok list_all_iff split_def)

section \<open>The claims\<close>

text \<open>
  C1. Files whose load tasks complete in any order: the completions are any list whose
  files are the selected files, each with its own clock readings. Starting from the empty
  deck, the final deck is the concatenation, in completion order, of one block for each
  completion: the separator titled with the file name, directly followed by one card for
  each parsed row in the order parsed. So the deck has exactly as many separators as
  files and as many cards as the files have parsed rows together.
\<close>

theorem merge_any_order:
  assumes "mset (map snd completions) = mset files"
  shows "cards (handleFiles completions (init_app stored)) =
           concat (map (\<lambda>(env, f).
             separator_obj (file_name f) (sep_id env) #
             map (\<lambda>(idx, p). card_obj (question p) (answer p) (card_id env (file_name f) idx))
               (enumerate 0 (parseCSV (file_text f)))) completions)
       \<and> length (filter is_separator (cards (handleFiles completions (init_app stored))))
           = length files
       \<and> length (filter is_card (cards (handleFiles completions (init_app stored))))
           = sum_list (map (\<lambda>f. length (parseCSV (file_text f))) files)"
proof -
  let ?d = "cards (handleFiles completions (init_app stored))"
  have d: "?d = concat (map (\<lambda>(env, f).
      new_entries env (file_name f) (parseCSV (file_text f))) completions)"
    by (simp add: handleFiles_cards init_app_def)
  have 1: "length (filter is_separator ?d) = length files"
    using count_blocks(1)[of completions] assms d by (metis length_map size_mset)
  have 2: "length (filter is_card ?d) = sum_list (map (\<lambda>f. length (parseCSV (file_text f))) files)"
    using count_blocks(2)[of completions] sum_list_mset_cong[OF assms] d by simp
  show ?thesis using d 1 2 by (simp add: new_entries_def)
qed

theorem merge_any_order_witness:
  "mset (map snd
      [(\<lparr>sep_now = 7, sep_rnd = ''0.5'', card_now = (\<lambda>i. 7)\<rparr>,
        \<lparr>file_name = ''b.csv'', file_text = ''''\<rparr>),
       (\<lparr>sep_now = 9, sep_rnd = ''0.25'', card_now = (\<lambda>i. 9)\<rparr>,
        \<lparr>file_name = ''a.csv'', file_text = ''Q1,A1''\<rparr>)])
     = mset [\<lparr>file_name = ''a.csv'', file_text = ''Q1,A1''\<rparr>,
             \<lparr>file_name = ''b.csv'', file_text = ''''\<rparr>]
   \<and> length (filter is_separator (cards (handleFiles
      [(\<lparr>sep_now = 7, sep_rnd = ''0.5'', card_now = (\<lambda>i. 7)\<rparr>,
        \<lparr>file_name = ''b.csv'', file_text = ''''\<rparr>),
       (\<lparr>sep_now = 9, sep_rnd = ''0.25'', card_now = (\<lambda>i. 9)\<rparr>,
        \<lparr>file_name = ''a.csv'', file_text = ''Q1,A1''\<rparr>)] (init_app None)))) = 2
   \<and> length (filter is_card (cards (handleFiles
      [(\<lparr>sep_now = 7, sep_rnd = ''0.5'', card_now = (\<lambda>i. 7)\<rparr>,
        \<lparr>file_name = ''b.csv'', file_text = ''''\<rparr>),
       (\<lparr>sep_now = 9, sep_rnd = ''0.25'', card_now = (\<lambda>i. 9)\<rparr>,
        \<lparr>file_name = ''a.csv'', file_text = ''Q1,A1''\<rparr>)] (init_app None)))) = 1"
proof -
  let ?cs = "[(\<lparr>sep_now = 7, sep_rnd = ''0.5'', card_now = (\<lambda>i. 7)\<rparr>,
        \<lparr>file_name = ''b.csv'', file_text = ''''\<rparr>),
       (\<lparr>sep_now = 9, sep_rnd = ''0.25'', card_now = (\<lambda>i. 9)\<rparr>,
        \<lparr>file_name = ''a.csv'', file_text = ''Q1,A1''\<rparr>)]"
  let ?fs = "[\<lparr>file_name = ''a.csv'', file_text = ''Q1,A1''\<rparr>,
             \<lparr>file_name = ''b.csv'', file_text = ''''\<rparr>]"
  have h: "mset (map snd ?cs) = mset ?fs" by (simp add: add_mset_commute)
  have e: "sum_list (map (\<lambda>f. length (parseCSV (file_text f))) ?fs) = 1" by code_simp
  note m = merge_any_order[OF h, of None]
  have a: "length (filter is_separator (cards (handleFiles ?cs (init_app None)))) = 2"
    using m[THEN conjunct2, THEN conjunct1] by simp
  have b: "length (filter is_card (cards (handleFiles ?cs (init_app None)))) = 1"
    using m[THEN conjunct2, THEN conjunct2] e by simp
  show ?thesis using h a b by blast
qed

text \<open>
  C2. The claim is that all entry ids of a reachable deck are pairwise distinct. The
  code does not ensure it: a card id is made of the source name, the row index and
  \<open>Date.now()\<close>, with no random part, unlike the separator id beside it. When the
  same URL is loaded twice and both updaters read the same millisecond, the first cards
  of the two loads get the same id, so the ids of the deck are not distinct.
\<close>

theorem duplicate_card_ids:
  "\<not> distinct (map entry_id (cards
      (loadFromUrl \<lparr>sep_now = 1000, sep_rnd = ''0.75'', card_now = (\<lambda>i. 1000)\<rparr>
         ''a.csv'' (Response True (Body ''Q,A''))
      (loadFromUrl \<lparr>sep_now = 1000, sep_rnd = ''0.25'', card_now = (\<lambda>i. 1000)\<rparr>
         ''a.csv'' (Response True (Body ''Q,A'')) (init_app None)))))"
  by code_simp

text \<open>
  C3. Two fields, each written by the serializer's quoting rule and joined with a
  comma, are read back by the tokenizer as exactly the two fields, whatever characters
  they hold.
\<close>

theorem tokenize_quoted_roundtrip:
  "splitCSVLine (quote_field f1 @ [comma] @ quote_field f2) = [f1, f2]"
proof -
  have "scan [] [] False (quote_field f1 @ comma # quote_field f2)
        = scan [] f1 False (comma # quote_field f2)"
    using scan_quote_field[of "comma # quote_field f2" "[]" "[]" f1] comma_not_dquote by simp
  also have "\<dots> = scan [f1] [] False (quote_field f2 @ [])"
    using comma_not_dquote by simp
  also have "\<dots> = scan [f1] f2 False []"
    using scan_quote_field[of "[]" "[f1]" "[]" f2] by simp
  finally show ?thesis by (simp add: splitCSVLine_def)
qed

theorem tokenize_quoted_roundtrip_witness:
  "splitCSVLine ([dquote] @ ''a,'' @ [dquote, dquote] @ ''b'' @ [newline, dquote] @ '',c'')
     = [''a,'' @ [dquote] @ ''b'' @ [newline], ''c'']"
proof -
  have q1: "quote_field (''a,'' @ [dquote] @ ''b'' @ [newline])
            = [dquote] @ ''a,'' @ [dquote, dquote] @ ''b'' @ [newline, dquote]"
    by (simp add: quote_field_def double_quotes_def comma_def dquote_def newline_def)
  have q2: "quote_field ''c'' = ''c''"
    by (simp add: quote_field_def comma_def dquote_def newline_def)
  show ?thesis
    using tokenize_quoted_roundtrip[of "''a,'' @ [dquote] @ ''b'' @ [newline]" "''c''"]
    unfolding q1 q2 by (simp add: comma_def)
qed

text \<open>
  C4. Every pair that \<open>parseCSV\<close> produces has a non-empty question or a non-empty
  answer, and both are already trimmed. Rows that are empty after trimming add nothing:
  the result is that of the non-empty rows alone, and a run of white space between two
  line feeds of the text can be taken out without changing the result.
\<close>

theorem parse_pairs_nonempty:
  "(\<forall>r \<in> set (parseCSV text).
      (question r \<noteq> [] \<or> answer r \<noteq> []) \<and>
      trim (question r) = question r \<and> trim (answer r) = answer r)
   \<and> parseCSV text = parse_rows (filter (\<lambda>l. l \<noteq> []) (map trim (split_lines [] text)))
   \<and> (trim b = [] \<longrightarrow>
        parseCSV (t1 @ newline # b @ newline # t2) = parseCSV (t1 @ newline # t2))"
proof -
  have 1: "\<forall>r \<in> set (parseCSV text).
      (question r \<noteq> [] \<or> answer r \<noteq> []) \<and>
      trim (question r) = question r \<and> trim (answer r) = answer r"
    using parse_rows_trimmed by (simp add: parseCSV_def)
  have 2: "parseCSV text = parse_rows (filter (\<lambda>l. l \<noteq> []) (map trim (split_lines [] text)))"
    by (simp only: parseCSV_def parse_rows_filter)
  have 3: "trim b = [] \<longrightarrow>
        parseCSV (t1 @ newline # b @ newline # t2) = parseCSV (t1 @ newline # t2)"
    by (simp add: parseCSV_newline parseCSV_blank)
  show ?thesis using 1 2 3 by blast
qed

theorem parse_pairs_nonempty_witness:
  "trim ''  '' = []
   \<and> parseCSV (''Q,A'' @ newline # ''  '' @ newline # '','')
       = parseCSV (''Q,A'' @ newline # '','')
   \<and> parseCSV (''Q,A'' @ newline # '','') = [\<lparr>question = ''Q'', answer = ''A''\<rparr>]"
proof -
  have h: "trim ''  '' = []" by (simp add: trim_def is_ws_def)
  have e: "parseCSV (''Q,A'' @ newline # '','') = [\<lparr>question = ''Q'', answer = ''A''\<rparr>]"
    by code_simp
  show ?thesis
    using parse_pairs_nonempty[of "''Q,A'' @ newline # '',''" "''  ''" "''Q,A''" "'',''"] h e
    by simp
qed

text \<open>
  C5. \<open>clearAll\<close> acts on the answer of the confirmation: on yes the deck is empty and
  the stored snapshot is removed (and the save effect that follows leaves it removed); on
  no the whole state, deck and snapshot included, is unchanged.
\<close>

theorem clear_confirmation:
  "cards (clearAll True st) = [] \<and> storage (clearAll True st) = None
   \<and> storage (save_on_change stringify write_ok (clearAll True st)) = None
   \<and> clearAll False st = st"
  by (simp add: clearAll_def save_on_change_def)

theorem clear_confirmation_witness:
  "cards (clearAll True
      \<lparr>cards = [separator_obj ''a.csv'' ''sep-1-0.5''], flipped = {}, storage = Some ''x'',
       alerts = [], console_errors = []\<rparr>) = []
   \<and> storage (clearAll True
      \<lparr>cards = [separator_obj ''a.csv'' ''sep-1-0.5''], flipped = {}, storage = Some ''x'',
       alerts = [], console_errors = []\<rparr>) = None
   \<and> storage (clearAll False
      \<lparr>cards = [separator_obj ''a.csv'' ''sep-1-0.5''], flipped = {}, storage = Some ''x'',
       alerts = [], console_errors = []\<rparr>) = Some ''x''"
  using clear_confirmation[of
      "\<lparr>cards = [separator_obj ''a.csv'' ''sep-1-0.5''], flipped = {}, storage = Some ''x'',
        alerts = [], console_errors = []\<rparr>" json_text True]
  by simp

text \<open>
  C6. \<open>loadFromUrl\<close> on failure (the fetch rejects, the response is not ok, or reading
  the body rejects) changes nothing but the list of alerts, which gets the failure
  message; the deck is as before. On success it appends the separator titled with the
  name taken from the URL, followed by the cards of the parsed rows, and raises no
  alert. The name is the text after the last slash, or the whole URL when that text is
  empty or there is no slash.
\<close>

theorem url_failure_unchanged:
  "loadFromUrl env url (FetchError msg) st
     = st\<lparr>alerts := alerts st @ [''Error cargando desde URL: '' @ msg]\<rparr>
   \<and> loadFromUrl env url (Response False b) st
     = st\<lparr>alerts := alerts st @ [''Error cargando desde URL: No se pudo obtener el archivo'']\<rparr>
   \<and> loadFromUrl env url (Response True (BodyError msg)) st
     = st\<lparr>alerts := alerts st @ [''Error cargando desde URL: '' @ msg]\<rparr>
   \<and> loadFromUrl env url (Response True (Body text)) st
     = st\<lparr>cards := cards st @
          separator_obj (url_name url) (sep_id env) #
          map (\<lambda>(idx, p). card_obj (question p) (answer p) (card_id env (url_name url) idx))
            (enumerate 0 (parseCSV text))\<rparr>
   \<and> (CHR ''/'' \<notin> set seg \<and> seg \<noteq> [] \<longrightarrow> url_name (pre @ ''/'' @ seg) = seg)
   \<and> url_name (pre @ ''/'') = pre @ ''/''
   \<and> (CHR ''/'' \<notin> set url \<longrightarrow> url_name url = url)"
  using url_name_segment[of seg pre] url_name_trailing[of pre] url_name_plain[of url]
  by (simp add: loadFromUrl_def alert_failure_def append_load_def new_entries_def)

theorem url_failure_unchanged_witness:
  "CHR ''/'' \<notin> set ''a.csv'' \<and> ''a.csv'' \<noteq> []
   \<and> url_name (''http://h/d'' @ ''/'' @ ''a.csv'') = ''a.csv''
   \<and> CHR ''/'' \<notin> set ''b.csv''
   \<and> url_name ''b.csv'' = ''b.csv''
   \<and> cards (loadFromUrl \<lparr>sep_now = 3, sep_rnd = ''0.5'', card_now = (\<lambda>i. 3)\<rparr> ''b.csv''
        (Response False (Body ''Q,A'')) (init_app None)) = []
   \<and> alerts (loadFromUrl \<lparr>sep_now = 3, sep_rnd = ''0.5'', card_now = (\<lambda>i. 3)\<rparr> ''b.csv''
        (Response False (Body ''Q,A'')) (init_app None))
       = [''Error cargando desde URL: No se pudo obtener el archivo'']"
proof -
  have h1: "CHR ''/'' \<notin> set ''a.csv'' \<and> ''a.csv'' \<noteq> []" by simp
  have h2: "CHR ''/'' \<notin> set ''b.csv''" by simp
  note u = url_failure_unchanged[of
      "\<lparr>sep_now = 3, sep_rnd = ''0.5'', card_now = (\<lambda>i. 3)\<rparr>" "''b.csv''" "[]"
      "init_app None" "Body ''Q,A''" "[]" "''a.csv''" "''http://h/d''"]
  have a: "url_name (''http://h/d'' @ ''/'' @ ''a.csv'') = ''a.csv''"
    using u h1 by blast
  have b: "url_name ''b.csv'' = ''b.csv''"
    using u h2 by blast
  have c: "loadFromUrl \<lparr>sep_now = 3, sep_rnd = ''0.5'', card_now = (\<lambda>i. 3)\<rparr> ''b.csv''
        (Response False (Body ''Q,A'')) (init_app None)
     = (init_app None)\<lparr>alerts := alerts (init_app None) @
          [''Error cargando desde URL: No se pudo obtener el archivo'']\<rparr>"
    using u by blast
  show ?thesis using h1 h2 a b unfolding c by (simp add: init_app_def)
qed

text \<open>
  C7. A non-empty deck that the save effect has written is the deck that the load
  effect adopts in a fresh process, entry for entry and in the same order, provided the
  write succeeded and the platform's \<open>JSON.stringify\<close> and \<open>JSON.parse\<close> are
  inverse on this deck (the written text is not empty and parses back to the same
  array). With the reference codec this holds for every non-empty deck of values without
  \<open>undefined\<close> and numbers, and every load keeps the deck among these.
\<close>

theorem snapshot_roundtrip:
  "(cards st \<noteq> [] \<and> stringify (JArr (cards st)) \<noteq> [] \<and>
    parse (stringify (JArr (cards st))) = Some (JArr (cards st)) \<longrightarrow>
      cards (load_on_start parse
        (init_app (storage (save_on_change stringify True st)))) = cards st)
   \<and> (cards st \<noteq> [] \<and> list_all json_ok (cards st) \<longrightarrow>
      cards (load_on_start json_read
        (init_app (storage (save_on_change json_text True st)))) = cards st)
   \<and> (list_all json_ok prev \<longrightarrow> list_all json_ok (append_load env name parsed prev))"
proof -
  have 1: "cards (load_on_start p (init_app (storage (save_on_change s True st)))) = cards st"
    if "cards st \<noteq> []" "s (JArr (cards st)) \<noteq> []"
      "p (s (JArr (cards st))) = Some (JArr (cards st))" for p s
    using that by (simp add: load_on_start_def init_app_def save_on_change_def)
  have 2: "cards (load_on_start json_read
        (init_app (storage (save_on_change json_text True st)))) = cards st"
    if "cards st \<noteq> []" "list_all json_ok (cards st)"
  proof (rule 1)
    have ok: "json_ok (JArr (cards st))" using that(2) by simp
    show "cards st \<noteq> []" by (rule that(1))
    show "json_text (JArr (cards st)) \<noteq> []" by (rule json_read_text(2)[OF ok])
    show "json_read (json_text (JArr (cards st))) = Some (JArr (cards st))"
      by (rule json_read_text(1)[OF ok])
  qed
  have 3: "list_all json_ok prev \<longrightarrow> list_all json_ok (append_load env name parsed prev)"
    using new_entries_json_ok[of env name parsed] by (simp add: append_load_def)
  show ?thesis using 1[of stringify parse] 2 3 by blast
qed

theorem snapshot_roundtrip_witness:
  "cards ((init_app None)\<lparr>cards :=
      [separator_obj ''a.csv'' ''sep-1-0.5'', card_obj ''Q'' ''A, B'' ''a.csv-0-1'']\<rparr>) \<noteq> []
   \<and> json_text (JArr (cards ((init_app None)\<lparr>cards :=
      [separator_obj ''a.csv'' ''sep-1-0.5'', card_obj ''Q'' ''A, B'' ''a.csv-0-1'']\<rparr>))) \<noteq> []
   \<and> json_read (json_text (JArr (cards ((init_app None)\<lparr>cards :=
      [separator_obj ''a.csv'' ''sep-1-0.5'', card_obj ''Q'' ''A, B'' ''a.csv-0-1'']\<rparr>))))
      = Some (JArr (cards ((init_app None)\<lparr>cards :=
      [separator_obj ''a.csv'' ''sep-1-0.5'', card_obj ''Q'' ''A, B'' ''a.csv-0-1'']\<rparr>)))
   \<and> cards (load_on_start json_read (init_app (storage (save_on_change json_text True
        ((init_app None)\<lparr>cards :=
      [separator_obj ''a.csv'' ''sep-1-0.5'', card_obj ''Q'' ''A, B'' ''a.csv-0-1'']\<rparr>)))))
      = [separator_obj ''a.csv'' ''sep-1-0.5'', card_obj ''Q'' ''A, B'' ''a.csv-0-1'']"
proof -
  let ?st = "(init_app None)\<lparr>cards :=
      [separator_obj ''a.csv'' ''sep-1-0.5'', card_obj ''Q'' ''A, B'' ''a.csv-0-1'']\<rparr>"
  have h1: "cards ?st \<noteq> []" by simp
  have h2: "json_text (JArr (cards ?st)) \<noteq> []" by code_simp
  have h3: "json_read (json_text (JArr (cards ?st))) = Some (JArr (cards ?st))" by code_simp
  note r = snapshot_roundtrip[where st = "?st" and stringify = json_text and parse = json_read,
      THEN conjunct1]
  show ?thesis using r h1 h2 h3 by simp
qed

text \<open>
  C8. The deck of the separator titled \<open>file1.csv\<close> and the card with question
  \<open>Q\<close> and answer \<open>A\<close> is exported as the text \<open>#file1.csv\<close>, a line feed,
  \<open>Q,A\<close>, with nothing after it, whatever the ids are.
\<close>

theorem export_example:
  "exportAllAsCSV to_str [separator_obj ''file1.csv'' sid, card_obj ''Q'' ''A'' cid]
     = Inr (''#file1.csv'' @ [newline] @ ''Q,A'')"
  by (simp add: exportAllAsCSV_def export_row_def separator_obj_def card_obj_def csv_field_def
      js_String_def quote_field_def comma_def dquote_def newline_def)

theorem export_example_witness:
  "exportAllAsCSV (\<lambda>v. ''?'')
     [separator_obj ''file1.csv'' ''sep-1-0.5'', card_obj ''Q'' ''A'' ''file1.csv-0-1'']
     = Inr [CHR ''#'', CHR ''f'', CHR ''i'', CHR ''l'', CHR ''e'', CHR ''1'', CHR ''.'',
            CHR ''c'', CHR ''s'', CHR ''v'', CHR 0x0A, CHR ''Q'', CHR '','', CHR ''A'']"
  using export_example[of "\<lambda>v. ''?''" "''sep-1-0.5''" "''file1.csv-0-1''"]
  by (simp add: newline_def)

text \<open>
  C9. Quotes that open or close a quoted run are not copied to the fields. A line that
  starts with a quote and has no other quote gives exactly one field, the rest of the
  line, commas included. A line without two adjacent quotes gives fields without any
  quote, and in general every quote in the fields uses up two quotes of the line.
\<close>

theorem unmatched_quote:
  "(dquote \<notin> set rest \<longrightarrow> splitCSVLine (dquote # rest) = [rest])
   \<and> ((\<forall>a b. line \<noteq> a @ dquote # dquote # b) \<longrightarrow>
        dquote \<notin> set (concat (splitCSVLine line)))
   \<and> 2 * count_list (concat (splitCSVLine line)) dquote \<le> count_list line dquote"
proof -
  have 1: "dquote \<notin> set rest \<longrightarrow> splitCSVLine (dquote # rest) = [rest]"
    using scan_inside[of rest "[]" "[]"] by (simp add: splitCSVLine_def)
  have 2: "(\<forall>a b. line \<noteq> a @ dquote # dquote # b) \<longrightarrow>
        dquote \<notin> set (concat (splitCSVLine line))"
    using scan_no_escape[of line "[]" "[]" False] by (simp add: splitCSVLine_def)
  have 3: "2 * count_list (concat (splitCSVLine line)) dquote \<le> count_list line dquote"
    using scan_quote_budget[of "[]" "[]" False line] by (simp add: splitCSVLine_def)
  show ?thesis using 1 2 3 by blast
qed

theorem unmatched_quote_witness:
  "dquote \<notin> set ''a,b, c''
   \<and> splitCSVLine (dquote # ''a,b, c'') = [''a,b, c'']"
proof -
  have h: "dquote \<notin> set ''a,b, c''" by (simp add: dquote_def)
  show ?thesis using unmatched_quote[of "''a,b, c''" "[]"] h by blast
qed

text \<open>
  C10. A stored text that parses to a value that is not an array, or to the empty
  array, leaves the start state as it is: the deck is empty and neither
  \<open>console.error\<close> nor \<open>alert\<close> is called.
\<close>

theorem load_wrong_shape:
  assumes "parse saved = Some v"
    and "(\<forall>xs. v \<noteq> JArr xs) \<or> v = JArr []"
  shows "load_on_start parse (init_app (Some saved)) = init_app (Some saved)
       \<and> cards (load_on_start parse (init_app (Some saved))) = []
       \<and> console_errors (load_on_start parse (init_app (Some saved))) = []
       \<and> alerts (load_on_start parse (init_app (Some saved))) = []"
  using assms by (auto simp: load_on_start_def init_app_def split: jsval.splits)

theorem load_wrong_shape_witness:
  "json_read ''{}'' = Some (JObj [])
   \<and> cards (load_on_start json_read (init_app (Some ''{}''))) = []
   \<and> console_errors (load_on_start json_read (init_app (Some ''{}''))) = []"
proof -
  have h1: "json_read ''{}'' = Some (JObj [])" by code_simp
  have h2: "(\<forall>xs. JObj [] \<noteq> JArr xs) \<or> JObj [] = JArr []" by simp
  show ?thesis using load_wrong_shape[where parse = json_read and saved = "''{}''" and v = "JObj []",
        OF h1 h2] h1 by blast
qed


end
